theory Spec2Isabelle
  imports Complex_Main "HOL-Library.Word" "HOL-Library.AList" "HOL-Library.Sublist"
begin

section \<open>The permacache Cache class (src/index.js) as a state-passing model\<close>

text \<open>
  The class \<^verbatim>\<open>Cache\<close> keeps its whole state in fields of \<^verbatim>\<open>this\<close>; every method becomes
  a function from the state to a result and the new state.  Conventions of the model:

  \<^item> JavaScript numbers that hold byte counts, counters and millisecond stamps are \<open>int\<close>
    (no floating point: all values stay far below \<open>2^53\<close>); a \<^verbatim>\<open>Buffer\<close> is a list of bytes.
  \<^item> The two objects \<^verbatim>\<open>_caches\<close> and \<^verbatim>\<open>_paths\<close> are association lists in the order in which
    their keys were created, which is what \<^verbatim>\<open>for (k in obj)\<close> needs; \<open>AList.update\<close> overwrites
    an existing key in place and appends a new one, as a property assignment does.  Keys are
    taken to be own properties only (no key is a property name of \<^verbatim>\<open>Object.prototype\<close>).
  \<^item> \<^verbatim>\<open>(new Date()).getTime()\<close> is the argument \<open>now\<close> of each operation.
  \<^item> The durable backend \<^verbatim>\<open>_longterm\<close> is an external collaborator: the state records only
    whether one is configured; what a read answers is an argument of the operation
    (\<open>None\<close> for a rejected promise), the writes an operation starts are returned as a list,
    and whether they succeed is an argument of \<open>settle\<close>.
  \<^item> \<^verbatim>\<open>crypto.createHash('sha256')\<close> is the parameter \<open>sha256\<close> of \<open>put\<close>.
  \<^item> A thrown exception leaves the mutations made before it in place, so a function that
    can throw returns the error together with the state reached.
  \<^item> The \<^verbatim>\<open>debug\<close> flag only prints and is left out.
\<close>

type_synonym buffer = "8 word list"

datatype error = OversizedPayload | NotFound | TypeError | DurableWriteFailure

record cache =
  fileLimit :: int
  totalLimit :: int
  longterm :: bool
  pathLimit :: int
  pathIndex :: int
  current :: int
  caches :: "(string \<times> (int \<times> buffer)) list"
  paths :: "(string \<times> (int \<times> string)) list"
  scoreFunc :: "int \<Rightarrow> int \<Rightarrow> int"

subsection \<open>Constructor\<close>

record options =
  opt_fileLimit :: "int option"
  opt_totalLimit :: "int option"
  opt_longterm :: bool
  opt_pathLimit :: "int option"

text \<open>\<^verbatim>\<open>x || d\<close> on a number: \<^verbatim>\<open>undefined\<close> and \<^verbatim>\<open>0\<close> give the default.\<close>

definition or_default :: "int option \<Rightarrow> int \<Rightarrow> int" where
  "or_default x d = (case x of None \<Rightarrow> d | Some n \<Rightarrow> if n = 0 then d else n)"

text \<open>\<^verbatim>\<open>age*Math.ceil(size/10000)\<close>; on integers the ceiling of \<open>s / 10000\<close> is \<open>- (- s div 10000)\<close>.\<close>

definition default_scoreFunc :: "int \<Rightarrow> int \<Rightarrow> int" where
  "default_scoreFunc age sz = age * (- ((- sz) div 10000))"

definition new_cache :: "options \<Rightarrow> cache" where
  "new_cache opts =
     \<lparr> fileLimit = or_default (opt_fileLimit opts) 100000,
       totalLimit = or_default (opt_totalLimit opts) 500000000,
       longterm = opt_longterm opts,
       pathLimit = or_default (opt_pathLimit opts) 100000,
       pathIndex = 0,
       current = 0,
       caches = [],
       paths = [],
       scoreFunc = default_scoreFunc \<rparr>"

subsection \<open>Property enumeration order of \<^verbatim>\<open>for ... in\<close>\<close>

text \<open>
  An object lists its array-index keys first (canonical decimal strings below \<open>2^32 - 1\<close>),
  in ascending numeric order, and then every other key in creation order.
\<close>

definition is_digit :: "char \<Rightarrow> bool" where
  "is_digit ch = (48 \<le> (of_char ch :: nat) \<and> (of_char ch :: nat) \<le> 57)"

definition decimal_value :: "string \<Rightarrow> nat" where
  "decimal_value s = foldl (\<lambda>n ch. 10 * n + (of_char ch - 48)) 0 s"

definition array_index :: "string \<Rightarrow> nat option" where
  "array_index k =
     (if k \<noteq> [] \<and> list_all is_digit k \<and> (hd k \<noteq> CHR ''0'' \<or> length k = 1)
         \<and> decimal_value k < 4294967295
      then Some (decimal_value k) else None)"

definition enum_order :: "(string \<times> 'v) list \<Rightarrow> (string \<times> 'v) list" where
  "enum_order xs =
     sort_key (\<lambda>(k, v). case array_index k of Some n \<Rightarrow> n | None \<Rightarrow> 0)
       (filter (\<lambda>(k, v). array_index k \<noteq> None) xs)
     @ filter (\<lambda>(k, v). array_index k = None) xs"

subsection \<open>\<^verbatim>\<open>_storePathInRAM\<close>\<close>

definition storePathInRAM :: "cache \<Rightarrow> string \<Rightarrow> string \<Rightarrow> cache" where
  "storePathInRAM c path hash =
     (case map_of (paths c) path of
        Some (i, h) \<Rightarrow> c\<lparr>paths := AList.update path (i, hash) (paths c)\<rparr>
      | None \<Rightarrow>
          let c1 = c\<lparr>paths := AList.update path (pathIndex c, hash) (paths c),
                     pathIndex := pathIndex c + 1\<rparr>
          in if pathIndex c1 > pathLimit c1
             then let removeIndex = pathIndex c1 - pathLimit c1 - 1
                  in (case find (\<lambda>(p, (i, h)). i = removeIndex) (enum_order (paths c1)) of
                        Some (p, e) \<Rightarrow> c1\<lparr>paths := AList.delete p (paths c1)\<rparr>
                      | None \<Rightarrow> c1)
             else c1)"

subsection \<open>\<^verbatim>\<open>_freeSpaceInRAM\<close>\<close>

text \<open>
  The array \<^verbatim>\<open>sorted\<close> of \<^verbatim>\<open>[score, hash]\<close> pairs is handed to the loop as a stack, its last
  element first, so that \<^verbatim>\<open>sorted.pop()\<close> takes the head.  Popping the empty array gives
  \<^verbatim>\<open>undefined\<close>, whose destructuring throws a \<^verbatim>\<open>TypeError\<close>; so does reading
  \<^verbatim>\<open>this._caches[hash][1]\<close> for a hash that is not resident.
\<close>

fun evict_loop :: "cache \<Rightarrow> int \<Rightarrow> (int \<times> string) list \<Rightarrow> (error + unit) \<times> cache" where
  "evict_loop c sz [] =
     (if current c + sz > totalLimit c then (Inl TypeError, c) else (Inr (), c))"
| "evict_loop c sz ((score, hash) # rest) =
     (if current c + sz > totalLimit c
      then (case map_of (caches c) hash of
              None \<Rightarrow> (Inl TypeError, c)
            | Some (t, d) \<Rightarrow>
                evict_loop (c\<lparr>current := current c - int (length d),
                              caches := AList.delete hash (caches c)\<rparr>) sz rest)
      else (Inr (), c))"

text \<open>The array built by the \<^verbatim>\<open>for (let hash in this._caches)\<close> loop.\<close>

definition scored :: "cache \<Rightarrow> int \<Rightarrow> (int \<times> string) list" where
  "scored c now =
     map (\<lambda>(hash, (t, d)). (scoreFunc c (now - t) (int (length d)), hash)) (enum_order (caches c))"

text \<open>\<^verbatim>\<open>sorted.sort((a, b) => a[0] - b[0])\<close> is a stable ascending sort on the score.\<close>

definition freeSpaceInRAM :: "cache \<Rightarrow> int \<Rightarrow> int \<Rightarrow> (error + unit) \<times> cache" where
  "freeSpaceInRAM c sz now =
     (if current c + sz > totalLimit c
      then evict_loop c sz (rev (sort_key fst (scored c now)))
      else (Inr (), c))"

subsection \<open>\<^verbatim>\<open>_storeCacheInRAM\<close>\<close>

definition storeCacheInRAM :: "cache \<Rightarrow> string \<Rightarrow> buffer \<Rightarrow> int \<Rightarrow> (error + bool) \<times> cache" where
  "storeCacheInRAM c hash data now =
     (case map_of (caches c) hash of
        Some (t, d) \<Rightarrow> (Inr True, c\<lparr>caches := AList.update hash (now, d) (caches c)\<rparr>)
      | None \<Rightarrow>
          let sz = int (length data)
          in if sz > fileLimit c then (Inr False, c)
             else (case freeSpaceInRAM c sz now of
                     (Inl e, c1) \<Rightarrow> (Inl e, c1)
                   | (Inr u, c1) \<Rightarrow>
                       (Inr True, c1\<lparr>current := current c1 + sz,
                                     caches := AList.update hash (now, data) (caches c1)\<rparr>)))"

subsection \<open>Setters and the RAM part of \<^verbatim>\<open>_longterm.clear\<close>\<close>

definition set_totalLimit :: "cache \<Rightarrow> int \<Rightarrow> int \<Rightarrow> (error + unit) \<times> cache" where
  "set_totalLimit c bytes now = freeSpaceInRAM (c\<lparr>totalLimit := bytes\<rparr>) 0 now"

definition set_fileLimit :: "cache \<Rightarrow> int \<Rightarrow> cache" where
  "set_fileLimit c bytes = c\<lparr>fileLimit := bytes\<rparr>"

definition set_scoreFunc :: "cache \<Rightarrow> (int \<Rightarrow> int \<Rightarrow> int) \<Rightarrow> cache" where
  "set_scoreFunc c func = c\<lparr>scoreFunc := func\<rparr>"

text \<open>
  \<^verbatim>\<open>clear(check)\<close> of the backend object: with \<open>check\<close> set and no clear marker in the
  durable store it does nothing; else it resets the four fields.
\<close>

definition longterm_clear :: "cache \<Rightarrow> bool \<Rightarrow> bool \<Rightarrow> bool \<times> cache" where
  "longterm_clear c check marker =
     (if check \<and> \<not> marker then (False, c)
      else (True, c\<lparr>pathIndex := 0, current := 0, caches := [], paths := []\<rparr>))"

subsection \<open>\<^verbatim>\<open>put\<close>\<close>

datatype durable_write = WritePath string string | WriteCache string buffer

text \<open>
  How the promise returned by \<^verbatim>\<open>put\<close> is settled: rejected at once (by \<^verbatim>\<open>reject\<close> or by an
  exception in the executor), resolved at once with the hash, or handed to
  \<^verbatim>\<open>Promise.all(waiting)\<close>, which resolves with the hash when every started write succeeds
  and rejects when one fails.
\<close>

datatype put_result = Rejected error | Resolved string | Deferred string

fun put_paths :: "cache \<Rightarrow> string \<Rightarrow> string list \<Rightarrow> durable_write list \<Rightarrow> cache \<times> durable_write list" where
  "put_paths c hash [] waiting = (c, waiting)"
| "put_paths c hash (path # rest) waiting =
     (if (case map_of (paths c) path of None \<Rightarrow> True | Some (i, h) \<Rightarrow> h \<noteq> hash)
      then put_paths (storePathInRAM c path hash) hash rest
             (if longterm c then waiting @ [WritePath path hash] else waiting)
      else put_paths c hash rest waiting)"

definition put ::
  "(buffer \<Rightarrow> string) \<Rightarrow> cache \<Rightarrow> buffer \<Rightarrow> string list \<Rightarrow> bool \<Rightarrow> int
     \<Rightarrow> put_result \<times> cache \<times> durable_write list" where
  "put sha256 c data pths waitForLongTermIfPutInRAM now =
     (if \<not> longterm c \<and> int (length data) > fileLimit c then (Rejected OversizedPayload, c, [])
      else
        let hash = sha256 data;
            (c1, waiting1) = put_paths c hash pths [];
            waiting = (if longterm c1 \<and>
                          (case map_of (caches c1) hash of None \<Rightarrow> True | Some (t, d) \<Rightarrow> d = data)
                       then waiting1 @ [WriteCache hash data] else waiting1)
        in (case storeCacheInRAM c1 hash data now of
              (Inl e, c2) \<Rightarrow> (Rejected e, c2, waiting)
            | (Inr inRAM, c2) \<Rightarrow>
                if \<not> waitForLongTermIfPutInRAM \<and> inRAM then (Resolved hash, c2, waiting)
                else (Deferred hash, c2, waiting)))"

text \<open>What the caller finally observes, given which of the started writes succeed.\<close>

definition settle :: "(durable_write \<Rightarrow> bool) \<Rightarrow> put_result \<times> cache \<times> durable_write list \<Rightarrow> error + string" where
  "settle succeeds out =
     (case out of
        (Rejected e, c, waiting) \<Rightarrow> Inl e
      | (Resolved hash, c, waiting) \<Rightarrow> Inr hash
      | (Deferred hash, c, waiting) \<Rightarrow>
          if list_all succeeds waiting then Inr hash else Inl DurableWriteFailure)"

subsection \<open>\<^verbatim>\<open>getByHash\<close> and \<^verbatim>\<open>getByPath\<close>\<close>

text \<open>
  \<open>rd\<close> is the answer of \<^verbatim>\<open>_longterm.readCache(hash)\<close>, \<open>rp\<close> that of
  \<^verbatim>\<open>_longterm.readPath(path)\<close>.  The \<^verbatim>\<open>try\<close> block of \<^verbatim>\<open>getByHash\<close> also encloses
  \<^verbatim>\<open>_storeCacheInRAM\<close>, so an exception thrown there is swallowed as well.
\<close>

definition getByHash :: "cache \<Rightarrow> string \<Rightarrow> int \<Rightarrow> buffer option \<Rightarrow> (error + buffer) \<times> cache" where
  "getByHash c hash now rd =
     (case map_of (caches c) hash of
        Some (t, d) \<Rightarrow> (Inr d, c\<lparr>caches := AList.update hash (now, d) (caches c)\<rparr>)
      | None \<Rightarrow>
          if longterm c
          then (case rd of
                  Some data \<Rightarrow>
                    (case storeCacheInRAM c hash data now of
                       (Inl e, c1) \<Rightarrow> (Inl NotFound, c1)
                     | (Inr inRAM, c1) \<Rightarrow> (Inr data, c1))
                | None \<Rightarrow> (Inl NotFound, c))
          else (Inl NotFound, c))"

definition getByPath ::
  "cache \<Rightarrow> string \<Rightarrow> int \<Rightarrow> string option \<Rightarrow> buffer option \<Rightarrow> (error + buffer) \<times> cache" where
  "getByPath c path now rp rd =
     (case map_of (paths c) path of
        Some (i, h) \<Rightarrow> getByHash c h now rd
      | None \<Rightarrow>
          if longterm c
          then (case rp of
                  Some h \<Rightarrow> getByHash (storePathInRAM c path h) h now rd
                | None \<Rightarrow> (Inl NotFound, c))
          else (Inl NotFound, c))"

subsection \<open>Sequences of operations\<close>

datatype op =
    Put buffer "string list" bool int
  | GetByHash string int "buffer option"
  | GetByPath string int "string option" "buffer option"
  | SetTotalLimit int int
  | SetFileLimit int
  | SetScoreFunc "int \<Rightarrow> int \<Rightarrow> int"
  | Clear bool bool

fun step :: "(buffer \<Rightarrow> string) \<Rightarrow> cache \<Rightarrow> op \<Rightarrow> cache" where
  "step sha256 c (Put data pths w now) = fst (snd (put sha256 c data pths w now))"
| "step sha256 c (GetByHash hash now rd) = snd (getByHash c hash now rd)"
| "step sha256 c (GetByPath path now rp rd) = snd (getByPath c path now rp rd)"
| "step sha256 c (SetTotalLimit bytes now) = snd (set_totalLimit c bytes now)"
| "step sha256 c (SetFileLimit bytes) = set_fileLimit c bytes"
| "step sha256 c (SetScoreFunc func) = set_scoreFunc c func"
| "step sha256 c (Clear check marker) = (if longterm c then snd (longterm_clear c check marker) else c)"

definition run :: "(buffer \<Rightarrow> string) \<Rightarrow> cache \<Rightarrow> op list \<Rightarrow> cache" where
  "run sha256 c ops = foldl (step sha256) c ops"

section \<open>Invariants of the state and concrete inputs\<close>

text \<open>The sum of the lengths of the resident payloads.\<close>

definition resident_bytes :: "(string \<times> (int \<times> buffer)) list \<Rightarrow> int" where
  "resident_bytes xs = sum_list (map (\<lambda>(h, (t, d)). int (length d)) xs)"

text \<open>
  Every hash is one property of \<^verbatim>\<open>_caches\<close>, and \<^verbatim>\<open>_current\<close> is the sum of the resident
  payload lengths.
\<close>

definition cache_inv :: "cache \<Rightarrow> bool" where
  "cache_inv c = (distinct (map fst (caches c)) \<and> current c = resident_bytes (caches c))"



text \<open>
  A stand-in for the digest in concrete runs: the lowercase hexadecimal spelling of the
  bytes themselves.
\<close>

definition hex_digit :: "nat \<Rightarrow> char" where
  "hex_digit n = ''0123456789abcdef'' ! n"

definition hex_digest :: "buffer \<Rightarrow> string" where
  "hex_digest d = concat (map (\<lambda>b. [hex_digit (unat b div 16), hex_digit (unat b mod 16)]) d)"

text \<open>\<^verbatim>\<open>new Cache({fileLimit: 3, totalLimit: 5, pathLimit: 2})\<close>, with and without a backend.\<close>

definition ram_cache :: cache where
  "ram_cache = new_cache \<lparr>opt_fileLimit = Some 3, opt_totalLimit = Some 5,
                            opt_longterm = False, opt_pathLimit = Some 2\<rparr>"

definition durable_cache :: cache where
  "durable_cache = new_cache \<lparr>opt_fileLimit = Some 3, opt_totalLimit = Some 5,
                                opt_longterm = True, opt_pathLimit = Some 2\<rparr>"

subsection \<open>Eviction as the specification words it\<close>



subsection \<open>The window of insertion indices\<close>

text \<open>The insertion indices of the resident path entries, in the order of the entries.\<close>

definition indices :: "(string \<times> (int \<times> string)) list \<Rightarrow> int list" where
  "indices xs = map (\<lambda>(p, (i, h)). i) xs"


subsection \<open>States in which a payload has been dealt with\<close>

text \<open>
  The states in which storing \<open>data\<close> under \<open>hash\<close> changes no size: the hash is resident,
  or the payload is over the per-item limit, or the cache is empty and still too small.
\<close>

definition dedup_stable :: "cache \<Rightarrow> string \<Rightarrow> buffer \<Rightarrow> bool" where
  "dedup_stable c hash data =
     (map_of (caches c) hash \<noteq> None \<or> fileLimit c < int (length data) \<or>
      (caches c = [] \<and> totalLimit c < current c + int (length data)))"

subsection \<open>The admission result inside \<^verbatim>\<open>put\<close>\<close>

text \<open>
  The local variable \<^verbatim>\<open>inRAM\<close> of \<^verbatim>\<open>put\<close>: what \<^verbatim>\<open>_storeCacheInRAM\<close> answers after the
  paths have been stored.
\<close>

definition inRAM :: "(buffer \<Rightarrow> string) \<Rightarrow> cache \<Rightarrow> buffer \<Rightarrow> string list \<Rightarrow> int \<Rightarrow> error + bool" where
  "inRAM sha256 c data pths now =
     fst (storeCacheInRAM (fst (put_paths c (sha256 data) pths [])) (sha256 data) data now)"

text \<open>A backend on which every write fails.\<close>

definition writes_fail :: "durable_write \<Rightarrow> bool" where
  "writes_fail x = False"

subsection \<open>Deleting path entries\<close>

text \<open>
  Modelled from the spec: \<^verbatim>\<open>deleteByPath(path)\<close> is called by the repository's tests but is
  not defined in src/index.js.  The specification: remove the matching PathEntry from RAM
  and, if a durable backend is configured, from the durable tier (here the map from
  paths to hashes that the backend stores); never remove the underlying ContentEntry.
\<close>

definition deleteByPath :: "cache \<Rightarrow> (string \<rightharpoonup> string) \<Rightarrow> string \<Rightarrow> cache \<times> (string \<rightharpoonup> string)" where
  "deleteByPath c durable path =
     (c\<lparr>paths := AList.delete path (paths c)\<rparr>,
      if longterm c then durable(path := None) else durable)"

text \<open>
  Modelled from the spec: \<^verbatim>\<open>deleteByPathStart(prefix)\<close> is called by the repository's tests
  but is not defined in src/index.js.  The specification: prefix deletion removes every
  key that starts with the given string, from RAM and, if a durable backend is
  configured, from the durable tier; never remove the underlying ContentEntry.
\<close>

definition deleteByPathStart :: "cache \<Rightarrow> (string \<rightharpoonup> string) \<Rightarrow> string \<Rightarrow> cache \<times> (string \<rightharpoonup> string)" where
  "deleteByPathStart c durable start =
     (c\<lparr>paths := filter (\<lambda>(p, e). \<not> prefix start p) (paths c)\<rparr>,
      if longterm c then (\<lambda>p. if prefix start p then None else durable p) else durable)"

section \<open>The resident-size accumulator and the total limit\<close>

lemma resident_bytes_simps [simp]:
  "resident_bytes [] = 0"
  "resident_bytes ((h, (t, d)) # xs) = int (length d) + resident_bytes xs"
  by (simp_all add: resident_bytes_def)


lemma resident_bytes_update_new:
  "map_of xs h = None \<Longrightarrow> resident_bytes (AList.update h (t, d) xs) = resident_bytes xs + int (length d)"
  by (induction xs) (auto split: if_splits)

lemma resident_bytes_update_same:
  "map_of xs h = Some (t, d) \<Longrightarrow> resident_bytes (AList.update h (t', d) xs) = resident_bytes xs"
  by (induction xs) (auto split: if_splits)

lemma resident_bytes_delete:
  "distinct (map fst xs) \<Longrightarrow> map_of xs h = Some (t, d) \<Longrightarrow>
     resident_bytes (AList.delete h xs) = resident_bytes xs - int (length d)"
proof (induction xs)
  case Nil
  then show ?case by simp
next
  case (Cons x xs)
  obtain k t' d' where x: "x = (k, (t', d'))" by (cases x) auto
  show ?case
  proof (cases "k = h")
    case True
    with Cons.prems x have "h \<notin> fst ` set xs" by auto
    then have "AList.delete h xs = xs" by simp
    with True Cons.prems x show ?thesis by simp
  next
    case False
    with Cons x show ?thesis by simp
  qed
qed

lemma set_enum_order [simp]: "set (enum_order xs) = set xs"
  by (auto simp: enum_order_def)

lemma distinct_enum_order:
  "distinct (map fst xs) \<Longrightarrow> distinct (map fst (enum_order xs))"
  by (auto simp: enum_order_def distinct_map inj_on_def distinct_map_filter)

lemma evict_loop_frame:
  "evict_loop c sz stack = (r, c') \<Longrightarrow>
     totalLimit c' = totalLimit c \<and> fileLimit c' = fileLimit c \<and> longterm c' = longterm c \<and>
     pathLimit c' = pathLimit c \<and> pathIndex c' = pathIndex c \<and> paths c' = paths c \<and>
     scoreFunc c' = scoreFunc c"
proof (induction stack arbitrary: c)
  case Nil
  then show ?case by (auto split: if_splits)
next
  case (Cons p stack)
  obtain score hash where p: "p = (score, hash)" by (cases p)
  show ?case
  proof (cases "current c + sz > totalLimit c")
    case False
    with Cons.prems p show ?thesis by auto
  next
    case over: True
    show ?thesis
    proof (cases "map_of (caches c) hash")
      case None
      with Cons.prems p over show ?thesis by auto
    next
      case (Some e)
      obtain t d where e: "e = (t, d)" by (cases e)
      let ?c1 = "c\<lparr>current := current c - int (length d), caches := AList.delete hash (caches c)\<rparr>"
      from Cons.prems p over Some e have "evict_loop ?c1 sz stack = (r, c')" by simp
      from Cons.IH [OF this] show ?thesis by simp
    qed
  qed
qed

lemma evict_loop_inv:
  assumes "cache_inv c" and "distinct (map snd stack)"
      and "snd ` set stack = fst ` set (caches c)"
      and "evict_loop c sz stack = (r, c')"
  shows "cache_inv c' \<and> (r = Inr () \<longrightarrow> current c' + sz \<le> totalLimit c) \<and>
         (r \<noteq> Inr () \<longrightarrow> caches c' = [] \<and> totalLimit c < current c' + sz)"
  using assms
proof (induction stack arbitrary: c)
  case Nil
  then show ?case by (auto split: if_splits)
next
  case (Cons p stack)
  obtain score hash where p: "p = (score, hash)" by (cases p)
  show ?case
  proof (cases "current c + sz > totalLimit c")
    case False
    with Cons.prems p show ?thesis by auto
  next
    case over: True
    from Cons.prems(3) p have "hash \<in> fst ` set (caches c)" by auto
    then obtain e where Some: "map_of (caches c) hash = Some e"
      by (metis domD dom_map_of_conv_image_fst)
    obtain t d where e: "e = (t, d)" by (cases e)
    let ?c1 = "c\<lparr>current := current c - int (length d), caches := AList.delete hash (caches c)\<rparr>"
    from Cons.prems p over Some e have run: "evict_loop ?c1 sz stack = (r, c')" by simp
    from Cons.prems(1) Some e have inv1: "cache_inv ?c1"
      by (simp add: cache_inv_def AList.distinct_delete resident_bytes_delete)
    from Cons.prems(2) p have d1: "distinct (map snd stack)" and notin: "hash \<notin> snd ` set stack"
      by auto
    have "fst ` set (AList.delete hash (caches c)) = fst ` set (caches c) - {hash}"
      by (auto simp: AList.delete_eq)
    with Cons.prems(3) p notin have keys1: "snd ` set stack = fst ` set (caches ?c1)" by auto
    from Cons.IH [OF inv1 d1 keys1 run] show ?thesis by simp
  qed
qed

lemma evict_loop_keys:
  "evict_loop c sz stack = (r, c') \<Longrightarrow> set (caches c') \<subseteq> set (caches c)"
proof (induction stack arbitrary: c)
  case Nil
  then show ?case by (auto split: if_splits)
next
  case (Cons p stack)
  obtain score hash where p: "p = (score, hash)" by (cases p)
  show ?case
  proof (cases "current c + sz > totalLimit c")
    case False
    with Cons.prems p show ?thesis by auto
  next
    case over: True
    show ?thesis
    proof (cases "map_of (caches c) hash")
      case None
      with Cons.prems p over show ?thesis by auto
    next
      case (Some e)
      obtain t d where e: "e = (t, d)" by (cases e)
      let ?c1 = "c\<lparr>current := current c - int (length d), caches := AList.delete hash (caches c)\<rparr>"
      from Cons.prems p over Some e have "evict_loop ?c1 sz stack = (r, c')" by simp
      from Cons.IH [OF this] show ?thesis by (auto simp: AList.delete_eq)
    qed
  qed
qed

lemma snd_scored: "map snd (scored c now) = map fst (enum_order (caches c))"
  by (simp add: scored_def split_def comp_def)

lemma stack_distinct:
  "distinct (map fst (caches c)) \<Longrightarrow> distinct (map snd (rev (sort_key fst (scored c now))))"
proof -
  assume "distinct (map fst (caches c))"
  then have "distinct (map snd (scored c now))"
    by (simp add: snd_scored distinct_enum_order)
  then have "distinct (map snd (sort_key fst (scored c now)))"
    by (simp add: distinct_map)
  then show ?thesis by (simp add: rev_map [symmetric])
qed

lemma stack_keys: "snd ` set (rev (sort_key fst (scored c now))) = fst ` set (caches c)"
proof -
  have "snd ` set (scored c now) = set (map snd (scored c now))" by simp
  also have "\<dots> = fst ` set (caches c)" by (simp only: snd_scored set_map set_enum_order)
  finally show ?thesis by simp
qed

lemma freeSpaceInRAM_frame:
  "freeSpaceInRAM c sz now = (r, c') \<Longrightarrow>
     totalLimit c' = totalLimit c \<and> fileLimit c' = fileLimit c \<and> longterm c' = longterm c \<and>
     pathLimit c' = pathLimit c \<and> pathIndex c' = pathIndex c \<and> paths c' = paths c \<and>
     scoreFunc c' = scoreFunc c"
  by (auto simp: freeSpaceInRAM_def split: if_splits dest: evict_loop_frame)

lemma freeSpaceInRAM_keys:
  "freeSpaceInRAM c sz now = (r, c') \<Longrightarrow> set (caches c') \<subseteq> set (caches c)"
  by (auto simp: freeSpaceInRAM_def split: if_splits dest: evict_loop_keys)

lemma freeSpaceInRAM_inv:
  assumes "cache_inv c" and "freeSpaceInRAM c sz now = (r, c')"
  shows "cache_inv c' \<and> (r = Inr () \<longrightarrow> current c' + sz \<le> totalLimit c) \<and>
         (r \<noteq> Inr () \<longrightarrow> caches c' = [] \<and> current c' = 0 \<and> totalLimit c < sz)"
proof (cases "current c + sz > totalLimit c")
  case False
  with assms show ?thesis by (auto simp: freeSpaceInRAM_def)
next
  case True
  with assms(2) have run: "evict_loop c sz (rev (sort_key fst (scored c now))) = (r, c')"
    by (simp add: freeSpaceInRAM_def)
  from assms(1) have "distinct (map snd (rev (sort_key fst (scored c now))))"
    by (simp add: cache_inv_def stack_distinct)
  from evict_loop_inv [OF assms(1) this stack_keys run]
  show ?thesis by (auto simp: cache_inv_def)
qed


lemma storeCacheInRAM_resident:
  "map_of (caches c) hash = Some (t, d) \<Longrightarrow>
     storeCacheInRAM c hash data now =
       (Inr True, c\<lparr>caches := AList.update hash (now, d) (caches c)\<rparr>)"
  by (simp add: storeCacheInRAM_def)

lemma storeCacheInRAM_too_big:
  "map_of (caches c) hash = None \<Longrightarrow> fileLimit c < int (length data) \<Longrightarrow>
     storeCacheInRAM c hash data now = (Inr False, c)"
  by (simp add: storeCacheInRAM_def)

lemma storeCacheInRAM_throws:
  "map_of (caches c) hash = None \<Longrightarrow> \<not> fileLimit c < int (length data) \<Longrightarrow>
   freeSpaceInRAM c (int (length data)) now = (Inl e, c1) \<Longrightarrow>
     storeCacheInRAM c hash data now = (Inl e, c1)"
  by (simp add: storeCacheInRAM_def)

lemma storeCacheInRAM_admits:
  "map_of (caches c) hash = None \<Longrightarrow> \<not> fileLimit c < int (length data) \<Longrightarrow>
   freeSpaceInRAM c (int (length data)) now = (Inr u, c1) \<Longrightarrow>
     storeCacheInRAM c hash data now =
       (Inr True, c1\<lparr>current := current c1 + int (length data),
                       caches := AList.update hash (now, data) (caches c1)\<rparr>)"
  by (simp add: storeCacheInRAM_def)


lemma storeCacheInRAM_inv:
  assumes "cache_inv c" and "storeCacheInRAM c hash data now = (r, c')"
  shows "cache_inv c'"
proof (cases "map_of (caches c) hash")
  case (Some e)
  obtain t d where e: "e = (t, d)" by (cases e)
  with Some assms show ?thesis
    by (auto simp: storeCacheInRAM_resident cache_inv_def AList.distinct_update resident_bytes_update_same)
next
  case None
  show ?thesis
  proof (cases "int (length data) > fileLimit c")
    case True
    with None assms show ?thesis by (auto simp: storeCacheInRAM_too_big)
  next
    case False
    obtain r1 c1 where free: "freeSpaceInRAM c (int (length data)) now = (r1, c1)"
      by (cases "freeSpaceInRAM c (int (length data)) now")
    from freeSpaceInRAM_inv [OF assms(1) free] have inv1: "cache_inv c1" by simp
    from None have "hash \<notin> fst ` set (caches c)" by (simp add: map_of_eq_None_iff)
    with freeSpaceInRAM_keys [OF free] have "hash \<notin> fst ` set (caches c1)" by auto
    then have absent: "map_of (caches c1) hash = None" by (simp add: map_of_eq_None_iff)
    show ?thesis
    proof (cases r1)
      case (Inl e)
      with None False free assms(2) inv1 show ?thesis by (auto simp: storeCacheInRAM_throws)
    next
      case (Inr u)
      with None False free assms(2) have
        "c' = c1\<lparr>current := current c1 + int (length data),
                   caches := AList.update hash (now, data) (caches c1)\<rparr>"
        by (auto simp: storeCacheInRAM_admits)
      with inv1 absent show ?thesis
        by (simp add: cache_inv_def AList.distinct_update resident_bytes_update_new)
    qed
  qed
qed


lemma storePathInRAM_frame:
  "totalLimit (storePathInRAM c path hash) = totalLimit c \<and>
   fileLimit (storePathInRAM c path hash) = fileLimit c \<and>
   longterm (storePathInRAM c path hash) = longterm c \<and>
   pathLimit (storePathInRAM c path hash) = pathLimit c \<and>
   current (storePathInRAM c path hash) = current c \<and>
   caches (storePathInRAM c path hash) = caches c \<and>
   scoreFunc (storePathInRAM c path hash) = scoreFunc c"
  by (simp add: storePathInRAM_def Let_def split: option.splits prod.splits)

lemma put_paths_frame:
  "put_paths c hash pths waiting = (c', waiting') \<Longrightarrow>
   totalLimit c' = totalLimit c \<and> fileLimit c' = fileLimit c \<and> longterm c' = longterm c \<and>
   pathLimit c' = pathLimit c \<and> current c' = current c \<and> caches c' = caches c \<and>
   scoreFunc c' = scoreFunc c"
proof (induction pths arbitrary: c waiting)
  case Nil
  then show ?case by simp
next
  case (Cons path rest)
  show ?case
  proof (cases "case map_of (paths c) path of None \<Rightarrow> True | Some (i, h) \<Rightarrow> h \<noteq> hash")
    case True
    with Cons.prems have
      "put_paths (storePathInRAM c path hash) hash rest
         (if longterm c then waiting @ [WritePath path hash] else waiting) = (c', waiting')"
      by simp
    from Cons.IH [OF this] show ?thesis by (simp add: storePathInRAM_frame)
  next
    case False
    with Cons.prems have "put_paths c hash rest waiting = (c', waiting')" by simp
    from Cons.IH [OF this] show ?thesis .
  qed
qed








lemma evict_loop_error:
  "evict_loop c sz stack = (Inl e, c') \<Longrightarrow> e = TypeError"
proof (induction stack arbitrary: c)
  case Nil
  then show ?case by (auto split: if_splits)
next
  case (Cons p stack)
  obtain score hash where p: "p = (score, hash)" by (cases p)
  show ?case
  proof (cases "current c + sz > totalLimit c")
    case False
    with Cons.prems p show ?thesis by auto
  next
    case over: True
    show ?thesis
    proof (cases "map_of (caches c) hash")
      case None
      with Cons.prems p over show ?thesis by auto
    next
      case (Some e')
      obtain t d where e: "e' = (t, d)" by (cases e')
      let ?c1 = "c\<lparr>current := current c - int (length d), caches := AList.delete hash (caches c)\<rparr>"
      from Cons.prems p over Some e have "evict_loop ?c1 sz stack = (Inl e, c')" by simp
      from Cons.IH [OF this] show ?thesis .
    qed
  qed
qed

lemma freeSpaceInRAM_error:
  "freeSpaceInRAM c sz now = (Inl e, c') \<Longrightarrow> e = TypeError"
  by (auto simp: freeSpaceInRAM_def split: if_splits dest: evict_loop_error)

lemma put_cache_inv:
  assumes "cache_inv c"
  shows "cache_inv (fst (snd (put sha256 c data pths w now)))"
proof (cases "\<not> longterm c \<and> int (length data) > fileLimit c")
  case True
  with assms show ?thesis by (simp add: put_def)
next
  case False
  obtain c1 waiting1 where pp: "put_paths c (sha256 data) pths [] = (c1, waiting1)"
    by (cases "put_paths c (sha256 data) pths []")
  from put_paths_frame [OF pp] assms have b1: "cache_inv c1"
    by (simp add: cache_inv_def)
  obtain r c2 where st: "storeCacheInRAM c1 (sha256 data) data now = (r, c2)"
    by (cases "storeCacheInRAM c1 (sha256 data) data now")
  from storeCacheInRAM_inv [OF b1 st] have "cache_inv c2" .
  with False pp st show ?thesis
    by (cases r) (auto simp: put_def Let_def)
qed

lemma getByHash_cache_inv:
  assumes "cache_inv c"
  shows "cache_inv (snd (getByHash c hash now rd))"
proof (cases "map_of (caches c) hash")
  case (Some e)
  obtain t d where e: "e = (t, d)" by (cases e)
  with Some assms show ?thesis
    by (simp add: getByHash_def cache_inv_def AList.distinct_update resident_bytes_update_same)
next
  case None
  show ?thesis
  proof (cases "longterm c \<and> rd \<noteq> None")
    case False
    with None assms show ?thesis by (auto simp: getByHash_def split: option.splits)
  next
    case True
    then obtain data where rd: "rd = Some data" by auto
    obtain r c1 where st: "storeCacheInRAM c hash data now = (r, c1)"
      by (cases "storeCacheInRAM c hash data now")
    from storeCacheInRAM_inv [OF assms st] have "cache_inv c1" .
    with None True rd st show ?thesis by (cases r) (simp_all add: getByHash_def)
  qed
qed

lemma getByPath_cache_inv:
  assumes "cache_inv c"
  shows "cache_inv (snd (getByPath c path now rp rd))"
proof -
  have "cache_inv (storePathInRAM c path h)" for h
    using assms by (simp add: cache_inv_def storePathInRAM_frame)
  with assms show ?thesis
    by (auto simp: getByPath_def getByHash_cache_inv split: option.splits)
qed

lemma set_totalLimit_cache_inv:
  assumes "cache_inv c"
  shows "cache_inv (snd (set_totalLimit c bytes now))"
proof -
  let ?c0 = "c\<lparr>totalLimit := bytes\<rparr>"
  obtain r c' where free: "freeSpaceInRAM ?c0 0 now = (r, c')" by (cases "freeSpaceInRAM ?c0 0 now")
  from assms(1) have "cache_inv ?c0" by (simp add: cache_inv_def)
  from freeSpaceInRAM_inv [OF this free] free
  show ?thesis by (simp add: set_totalLimit_def)
qed

lemma step_cache_inv:
  assumes "cache_inv c"
  shows "cache_inv (step sha256 c x)"
proof (cases x)
  case (Put data pths w now)
  with assms show ?thesis by (simp add: put_cache_inv)
next
  case (GetByHash hash now rd)
  with assms show ?thesis by (simp add: getByHash_cache_inv)
next
  case (GetByPath path now rp rd)
  with assms show ?thesis by (simp add: getByPath_cache_inv)
next
  case (SetTotalLimit bytes now)
  with assms show ?thesis by (simp add: set_totalLimit_cache_inv)
next
  case (SetFileLimit bytes)
  with assms show ?thesis by (simp add: set_fileLimit_def cache_inv_def)
next
  case (SetScoreFunc func)
  with assms show ?thesis by (simp add: set_scoreFunc_def cache_inv_def)
next
  case (Clear check marker)
  with assms show ?thesis by (simp add: longterm_clear_def cache_inv_def)
qed

lemma new_cache_inv: "cache_inv (new_cache opts)"
  by (simp add: new_cache_def cache_inv_def)

lemma run_cache_inv: "cache_inv c \<Longrightarrow> cache_inv (run sha256 c ops)"
  unfolding run_def by (induction ops arbitrary: c) (simp_all add: step_cache_inv)

lemma reachable_cache_inv: "cache_inv (run sha256 (new_cache opts) ops)"
  by (simp add: run_cache_inv new_cache_inv)



text \<open>The definitions unfolded to run the model on a concrete input.\<close>

lemmas eval_defs = run_def put_def Let_def new_cache_def or_default_def hex_digest_def hex_digit_def
  storeCacheInRAM_def freeSpaceInRAM_def storePathInRAM_def scored_def enum_order_def array_index_def
  is_digit_def decimal_value_def default_scoreFunc_def set_totalLimit_def getByHash_def getByPath_def
  resident_bytes_def


section \<open>Eviction by largest score\<close>








section \<open>The sliding window of path entries\<close>

lemma indices_simps [simp]:
  "indices [] = []"
  "indices ((p, (i, h)) # xs) = i # indices xs"
  "indices (xs @ ys) = indices xs @ indices ys"
  by (simp_all add: indices_def)



lemma keys_update_same:
  "map_of xs p = Some v \<Longrightarrow> map fst (AList.update p v' xs) = map fst xs"
  by (induction xs) (auto split: if_splits)






















section \<open>Admission never pops an empty candidate list when the payload fits\<close>



section \<open>Content addressing and deduplication\<close>

lemma put_result_hash:
  "(case fst (put sha256 c data pths w now) of
      Rejected e \<Rightarrow> True | Resolved h \<Rightarrow> h = sha256 data | Deferred h \<Rightarrow> h = sha256 data)"
proof (cases "\<not> longterm c \<and> int (length data) > fileLimit c")
  case True
  then show ?thesis by (simp add: put_def)
next
  case False
  obtain c1 waiting1 where pp: "put_paths c (sha256 data) pths [] = (c1, waiting1)"
    by (cases "put_paths c (sha256 data) pths []")
  obtain r c2 where st: "storeCacheInRAM c1 (sha256 data) data now = (r, c2)"
    by (cases "storeCacheInRAM c1 (sha256 data) data now")
  from False pp st show ?thesis by (cases r) (auto simp: put_def Let_def)
qed

lemma put_state_cases:
  assumes "\<not> (\<not> longterm c \<and> int (length data) > fileLimit c)"
  shows "\<exists>c1. caches c1 = caches c \<and> current c1 = current c \<and> totalLimit c1 = totalLimit c \<and>
           fileLimit c1 = fileLimit c \<and>
           fst (snd (put sha256 c data pths w now)) = snd (storeCacheInRAM c1 (sha256 data) data now)"
proof -
  obtain c1 waiting1 where pp: "put_paths c (sha256 data) pths [] = (c1, waiting1)"
    by (cases "put_paths c (sha256 data) pths []")
  obtain r c2 where st: "storeCacheInRAM c1 (sha256 data) data now = (r, c2)"
    by (cases "storeCacheInRAM c1 (sha256 data) data now")
  from assms pp st have "fst (snd (put sha256 c data pths w now)) = c2"
    by (cases r) (auto simp: put_def Let_def)
  with put_paths_frame [OF pp] st show ?thesis by auto
qed

lemma storeCacheInRAM_stable:
  assumes "dedup_stable c hash data"
  shows "current (snd (storeCacheInRAM c hash data now)) = current c \<and>
         map fst (caches (snd (storeCacheInRAM c hash data now))) = map fst (caches c) \<and>
         dedup_stable (snd (storeCacheInRAM c hash data now)) hash data"
proof (cases "map_of (caches c) hash")
  case (Some e)
  obtain t d where e: "e = (t, d)" by (cases e)
  with Some show ?thesis
    by (simp add: storeCacheInRAM_resident dedup_stable_def AList.update_conv' keys_update_same)
next
  case None
  show ?thesis
  proof (cases "fileLimit c < int (length data)")
    case True
    with None assms show ?thesis by (simp add: storeCacheInRAM_too_big)
  next
    case False
    with None assms have empty: "caches c = []" and over: "totalLimit c < current c + int (length data)"
      by (simp_all add: dedup_stable_def)
    then have "freeSpaceInRAM c (int (length data)) now = (Inl TypeError, c)"
      by (simp add: freeSpaceInRAM_def scored_def enum_order_def)
    with None False assms show ?thesis by (simp add: storeCacheInRAM_throws)
  qed
qed

lemma storeCacheInRAM_becomes_stable:
  assumes "cache_inv c"
  shows "dedup_stable (snd (storeCacheInRAM c hash data now)) hash data"
proof (cases "map_of (caches c) hash")
  case (Some e)
  then have "dedup_stable c hash data" by (simp add: dedup_stable_def)
  then show ?thesis by (simp add: storeCacheInRAM_stable)
next
  case None
  show ?thesis
  proof (cases "fileLimit c < int (length data)")
    case True
    then have "dedup_stable c hash data" by (simp add: dedup_stable_def)
    then show ?thesis by (simp add: storeCacheInRAM_stable)
  next
    case False
    obtain r1 c1 where free: "freeSpaceInRAM c (int (length data)) now = (r1, c1)"
      by (cases "freeSpaceInRAM c (int (length data)) now")
    note post = freeSpaceInRAM_inv [OF assms free]
    note fr = freeSpaceInRAM_frame [OF free]
    show ?thesis
    proof (cases r1)
      case (Inl e)
      with None False free post fr show ?thesis
        by (simp add: storeCacheInRAM_throws dedup_stable_def)
    next
      case (Inr u)
      with None False free show ?thesis
        by (simp add: storeCacheInRAM_admits dedup_stable_def AList.update_conv')
    qed
  qed
qed

lemma put_stable:
  assumes "dedup_stable c (sha256 data) data"
  shows "current (step sha256 c (Put data pths w now)) = current c \<and>
         map fst (caches (step sha256 c (Put data pths w now))) = map fst (caches c) \<and>
         dedup_stable (step sha256 c (Put data pths w now)) (sha256 data) data"
proof (cases "\<not> longterm c \<and> int (length data) > fileLimit c")
  case True
  with assms show ?thesis by (simp add: put_def)
next
  case False
  from put_state_cases [OF False, of sha256 pths w now] obtain c1 where
    c1: "caches c1 = caches c" "current c1 = current c" "totalLimit c1 = totalLimit c"
        "fileLimit c1 = fileLimit c" and
    eq: "fst (snd (put sha256 c data pths w now)) = snd (storeCacheInRAM c1 (sha256 data) data now)"
    by blast
  from assms c1 have "dedup_stable c1 (sha256 data) data" by (simp add: dedup_stable_def)
  from storeCacheInRAM_stable [OF this, of now] eq c1 show ?thesis by simp
qed

lemma put_becomes_stable:
  assumes "cache_inv c"
  shows "dedup_stable (step sha256 c (Put data pths w now)) (sha256 data) data"
proof (cases "\<not> longterm c \<and> int (length data) > fileLimit c")
  case True
  then show ?thesis by (simp add: put_def dedup_stable_def)
next
  case False
  from put_state_cases [OF False, of sha256 pths w now] obtain c1 where
    c1: "caches c1 = caches c" "current c1 = current c" and
    eq: "fst (snd (put sha256 c data pths w now)) = snd (storeCacheInRAM c1 (sha256 data) data now)"
    by blast
  from assms c1 have "cache_inv c1" by (simp add: cache_inv_def)
  from storeCacheInRAM_becomes_stable [OF this, of "sha256 data" data now] eq show ?thesis by simp
qed

lemma repeated_put_stable:
  "dedup_stable c (sha256 data) data \<Longrightarrow>
     current (run sha256 c (map (\<lambda>(ps, w, t). Put data ps w t) args)) = current c"
proof (induction args arbitrary: c)
  case Nil
  then show ?case by (simp add: run_def)
next
  case (Cons a args)
  obtain ps w t where a: "a = (ps, w, t)" by (cases a)
  from put_stable [where c=c and ?sha256.0=sha256 and data=data and pths=ps and w=w and now=t] Cons.prems have
    st: "dedup_stable (step sha256 c (Put data ps w t)) (sha256 data) data" and
    cur: "current (step sha256 c (Put data ps w t)) = current c" by simp_all
  from Cons.IH [OF st] cur a show ?case by (simp add: run_def)
qed

lemma put_first_admission:
  assumes "map_of (caches c) (sha256 data) = None" and "int (length data) \<le> fileLimit c"
      and "current c + int (length data) \<le> totalLimit c"
  shows "current (step sha256 c (Put data pths w now)) = current c + int (length data)"
proof -
  from assms(2) have "\<not> (\<not> longterm c \<and> int (length data) > fileLimit c)" by simp
  from put_state_cases [OF this, of sha256 pths w now] obtain c1 where
    c1: "caches c1 = caches c" "current c1 = current c" "totalLimit c1 = totalLimit c"
        "fileLimit c1 = fileLimit c" and
    eq: "fst (snd (put sha256 c data pths w now)) = snd (storeCacheInRAM c1 (sha256 data) data now)"
    by blast
  from assms c1 have "freeSpaceInRAM c1 (int (length data)) now = (Inr (), c1)"
    by (simp add: freeSpaceInRAM_def)
  with assms c1 eq show ?thesis by (simp add: storeCacheInRAM_admits)
qed

text \<open>
  C4.  In every state \<open>c\<close> reached from a fresh cache: a hash that \<open>put\<close> hands back is the
  digest of the payload bytes and of nothing else (not of the state, the paths, the flag
  or the time); a \<open>put\<close> of bytes resident under their hash leaves resident size and the
  set of resident hashes as they are, and resident hashes are never repeated; the first
  \<open>put\<close> of bytes that fit without eviction adds their length; and after one \<open>put\<close> of
  the bytes, any number of further \<open>put\<close>s of the same bytes, under any paths, leaves
  resident size unchanged.
\<close>

theorem put_is_content_addressed:
  assumes "c = run sha256 (new_cache opts) ops"
  shows "(case fst (put sha256 c data pths w now) of
            Rejected e \<Rightarrow> True | Resolved h \<Rightarrow> h = sha256 data | Deferred h \<Rightarrow> h = sha256 data) \<and>
         (map_of (caches c) (sha256 data) \<noteq> None \<longrightarrow>
            current (step sha256 c (Put data pths w now)) = current c \<and>
            map fst (caches (step sha256 c (Put data pths w now))) = map fst (caches c)) \<and>
         distinct (map fst (caches (step sha256 c (Put data pths w now)))) \<and>
         (map_of (caches c) (sha256 data) = None \<and> int (length data) \<le> fileLimit c \<and>
          current c + int (length data) \<le> totalLimit c \<longrightarrow>
            current (step sha256 c (Put data pths w now)) = current c + int (length data)) \<and>
         (\<forall>args. current (run sha256 (step sha256 c (Put data pths w now))
                            (map (\<lambda>(ps, w', t). Put data ps w' t) args))
                 = current (step sha256 c (Put data pths w now)))"
proof -
  from assms have inv: "cache_inv c" by (simp add: reachable_cache_inv)
  have resident: "current (step sha256 c (Put data pths w now)) = current c \<and>
                  map fst (caches (step sha256 c (Put data pths w now))) = map fst (caches c)"
    if "map_of (caches c) (sha256 data) \<noteq> None"
  proof -
    from that have "dedup_stable c (sha256 data) data" by (simp add: dedup_stable_def)
    with put_stable [where c=c and ?sha256.0=sha256 and data=data and pths=pths and w=w and now=now] show ?thesis by simp
  qed
  from put_cache_inv [OF inv, where ?sha256.0=sha256 and data=data and pths=pths and w=w and now=now] have
    dist: "distinct (map fst (caches (step sha256 c (Put data pths w now))))"
    by (simp add: cache_inv_def)
  have again: "current (run sha256 (step sha256 c (Put data pths w now))
                            (map (\<lambda>(ps, w', t). Put data ps w' t) args))
                 = current (step sha256 c (Put data pths w now))" for args
    using repeated_put_stable [where c="step sha256 c (Put data pths w now)" and ?sha256.0=sha256 and data=data and args=args]
          put_becomes_stable [OF inv, where ?sha256.0=sha256 and data=data and pths=pths and w=w and now=now]
    by simp
  have first: "current (step sha256 c (Put data pths w now)) = current c + int (length data)"
    if "map_of (caches c) (sha256 data) = None \<and> int (length data) \<le> fileLimit c \<and>
        current c + int (length data) \<le> totalLimit c"
    using that put_first_admission [where c=c and ?sha256.0=sha256 and data=data and pths=pths and w=w and now=now] by simp
  from put_result_hash [where c=c and ?sha256.0=sha256 and data=data and pths=pths and w=w and now=now] resident dist first again
  show ?thesis by blast
qed

theorem put_is_content_addressed_witness:
  "map_of (caches (run hex_digest ram_cache [Put [1, 2, 3] [''a''] False 10])) (hex_digest [1, 2, 3])
     \<noteq> None \<and>
   current (step hex_digest (run hex_digest ram_cache [Put [1, 2, 3] [''a''] False 10])
              (Put [1, 2, 3] [''c''] False 20))
     = current (run hex_digest ram_cache [Put [1, 2, 3] [''a''] False 10]) \<and>
   map_of (caches (run hex_digest ram_cache [Put [1, 2, 3] [''a''] False 10])) (hex_digest [4, 5])
     = None \<and>
   int (length [4, 5 :: 8 word]) \<le> fileLimit (run hex_digest ram_cache [Put [1, 2, 3] [''a''] False 10]) \<and>
   current (run hex_digest ram_cache [Put [1, 2, 3] [''a''] False 10]) + int (length [4, 5 :: 8 word])
     \<le> totalLimit (run hex_digest ram_cache [Put [1, 2, 3] [''a''] False 10]) \<and>
   current (step hex_digest (run hex_digest ram_cache [Put [1, 2, 3] [''a''] False 10])
              (Put [4, 5] [''b''] False 20)) = 5 \<and>
   current (run hex_digest
              (step hex_digest (run hex_digest ram_cache [Put [1, 2, 3] [''a''] False 10])
                 (Put [4, 5] [''b''] False 20))
              [Put [4, 5] [''x''] True 30, Put [4, 5] [] False 40]) = 5"
proof -
  let ?c = "run hex_digest ram_cache [Put [1, 2, 3] [''a''] False 10]"
  let ?opts = "\<lparr>opt_fileLimit = Some 3, opt_totalLimit = Some 5,
                 opt_longterm = False, opt_pathLimit = Some 2\<rparr>"
  have c: "?c = run hex_digest (new_cache ?opts) [Put [1, 2, 3] [''a''] False 10]"
    by (simp add: ram_cache_def)
  have st: "?c = \<lparr>fileLimit = 3, totalLimit = 5, longterm = False, pathLimit = 2, pathIndex = 1,
                  current = 3, caches = [(''010203'', 10, [1, 2, 3])],
                  paths = [(''a'', 0, ''010203'')], scoreFunc = default_scoreFunc\<rparr>"
    by (simp add: ram_cache_def eval_defs)
  have h: "hex_digest [1, 2, 3] = ''010203''" "hex_digest [4, 5] = ''0405''"
    by (simp_all add: hex_digest_def hex_digit_def)
  from put_is_content_addressed [OF c, where data="[1, 2, 3]" and pths="[''c'']" and w=False and now=20]
  have a: "map_of (caches ?c) (hex_digest [1, 2, 3]) \<noteq> None \<longrightarrow>
             current (step hex_digest ?c (Put [1, 2, 3] [''c''] False 20)) = current ?c"
    by blast
  from put_is_content_addressed [OF c, where data="[4, 5]" and pths="[''b'']" and w=False and now=20]
  have b: "map_of (caches ?c) (hex_digest [4, 5]) = None \<and> int (length [4, 5 :: 8 word]) \<le> fileLimit ?c \<and>
             current ?c + int (length [4, 5 :: 8 word]) \<le> totalLimit ?c \<longrightarrow>
             current (step hex_digest ?c (Put [4, 5] [''b''] False 20))
               = current ?c + int (length [4, 5 :: 8 word])"
    and r: "current (run hex_digest (step hex_digest ?c (Put [4, 5] [''b''] False 20))
                       (map (\<lambda>(ps, w', t). Put [4, 5] ps w' t) [([''x''], True, 30), ([], False, 40)]))
              = current (step hex_digest ?c (Put [4, 5] [''b''] False 20))"
    by blast+
  have pre: "map_of (caches ?c) (hex_digest [1, 2, 3]) \<noteq> None"
    "map_of (caches ?c) (hex_digest [4, 5]) = None"
    "int (length [4, 5 :: 8 word]) \<le> fileLimit ?c"
    "current ?c + int (length [4, 5 :: 8 word]) \<le> totalLimit ?c"
    "current ?c = 3"
    unfolding st h by simp_all
  from a b r pre show ?thesis by simp
qed

section \<open>Oversized payloads without a durable backend\<close>

text \<open>
  C5.  On a cache with no durable backend, \<open>put\<close> of a payload longer than \<open>fileLimit\<close>
  (the per-item limit) is rejected with \<open>OversizedPayload\<close> and stores nothing: the whole
  state (content entries, path entries, resident size, counters) is the one before the
  call, and no durable write is started.
\<close>

theorem put_oversized_rejected:
  assumes "\<not> longterm c" and "int (length data) > fileLimit c"
  shows "put sha256 c data pths w now = (Rejected OversizedPayload, c, [])"
  using assms by (simp add: put_def)

theorem put_oversized_rejected_witness:
  "\<not> longterm ram_cache \<and> int (length [1, 2, 3, 4 :: 8 word]) > fileLimit ram_cache \<and>
   put hex_digest ram_cache [1, 2, 3, 4] [''a''] False 10 = (Rejected OversizedPayload, ram_cache, [])"
  using put_oversized_rejected [of ram_cache "[1, 2, 3, 4]" hex_digest "[''a'']" False 10]
  by (simp add: ram_cache_def new_cache_def or_default_def)

section \<open>How the promise of \<^verbatim>\<open>put\<close> is settled\<close>

lemma put_unfold:
  assumes "\<not> (\<not> longterm c \<and> fileLimit c < int (length data))"
  shows "fst (put sha256 c data pths w now) =
           (case inRAM sha256 c data pths now of
              Inl e \<Rightarrow> Rejected e
            | Inr b \<Rightarrow> if \<not> w \<and> b then Resolved (sha256 data) else Deferred (sha256 data))"
proof -
  obtain c1 waiting1 where pp: "put_paths c (sha256 data) pths [] = (c1, waiting1)"
    by (cases "put_paths c (sha256 data) pths []")
  obtain r c2 where st: "storeCacheInRAM c1 (sha256 data) data now = (r, c2)"
    by (cases "storeCacheInRAM c1 (sha256 data) data now")
  from assms pp st show ?thesis
    by (cases r) (auto simp: put_def inRAM_def Let_def)
qed

lemma settle_unfold:
  "settle succeeds out =
     (case fst out of
        Rejected e \<Rightarrow> Inl e
      | Resolved h \<Rightarrow> Inr h
      | Deferred h \<Rightarrow> if list_all succeeds (snd (snd out)) then Inr h else Inl DurableWriteFailure)"
  by (cases out) (simp add: settle_def split: put_result.splits)

lemma inRAM_error: "inRAM sha256 c data pths now = Inl e \<Longrightarrow> e = TypeError"
proof -
  assume a: "inRAM sha256 c data pths now = Inl e"
  let ?c1 = "fst (put_paths c (sha256 data) pths [])"
  obtain r c2 where st: "storeCacheInRAM ?c1 (sha256 data) data now = (r, c2)"
    by (cases "storeCacheInRAM ?c1 (sha256 data) data now")
  with a have r: "r = Inl e" by (simp add: inRAM_def)
  show ?thesis
  proof (cases "map_of (caches ?c1) (sha256 data)")
    case (Some x)
    obtain t d where "x = (t, d)" by (cases x)
    with Some st r show ?thesis by (simp add: storeCacheInRAM_resident)
  next
    case None
    show ?thesis
    proof (cases "fileLimit ?c1 < int (length data)")
      case True
      with None st r show ?thesis by (simp add: storeCacheInRAM_too_big)
    next
      case False
      obtain r1 c1' where free: "freeSpaceInRAM ?c1 (int (length data)) now = (r1, c1')"
        by (cases "freeSpaceInRAM ?c1 (int (length data)) now")
      show ?thesis
      proof (cases r1)
        case (Inl e')
        with None False free st r have "e' = e" by (simp add: storeCacheInRAM_throws)
        with Inl free show ?thesis by (auto dest: freeSpaceInRAM_error)
      next
        case (Inr u)
        with None False free st r show ?thesis by (simp add: storeCacheInRAM_admits)
      qed
    qed
  qed
qed

text \<open>
  C6, as amended.  When \<open>put\<close> is not rejected at once: if the payload was admitted to RAM
  and the caller did not ask to wait, the promise is resolved with the hash at once,
  whatever happens to the started writes; if the caller asked to wait, or the payload
  was not admitted (it is over the per-item limit), the promise is settled by the
  started writes: resolved with the hash if all succeed, rejected if one fails.  So a
  durable write failure reaches the caller only when a write did fail and the caller
  either asked to wait or had a payload that was not admitted; a caller that did not
  wait and whose payload was admitted never sees it.
\<close>

theorem put_settlement:
  "(\<not> (\<not> longterm c \<and> fileLimit c < int (length data)) \<and>
    inRAM sha256 c data pths now = Inr True \<and> \<not> w \<longrightarrow>
      fst (put sha256 c data pths w now) = Resolved (sha256 data) \<and>
      settle succeeds (put sha256 c data pths w now) = Inr (sha256 data)) \<and>
   (\<forall>b. \<not> (\<not> longterm c \<and> fileLimit c < int (length data)) \<and>
    inRAM sha256 c data pths now = Inr b \<and> (w \<or> \<not> b) \<longrightarrow>
      fst (put sha256 c data pths w now) = Deferred (sha256 data) \<and>
      settle succeeds (put sha256 c data pths w now) =
        (if list_all succeeds (snd (snd (put sha256 c data pths w now)))
         then Inr (sha256 data) else Inl DurableWriteFailure)) \<and>
   (settle succeeds (put sha256 c data pths w now) = Inl DurableWriteFailure \<longrightarrow>
      (w \<or> inRAM sha256 c data pths now = Inr False) \<and>
      \<not> list_all succeeds (snd (snd (put sha256 c data pths w now))))"
proof -
  let ?out = "put sha256 c data pths w now"
  have one: "fst ?out = Resolved (sha256 data) \<and> settle succeeds ?out = Inr (sha256 data)"
    if "\<not> (\<not> longterm c \<and> fileLimit c < int (length data))"
       "inRAM sha256 c data pths now = Inr True" "\<not> w"
    using that put_unfold [OF that(1), of sha256 pths w now] by (simp add: settle_unfold)
  have two: "fst ?out = Deferred (sha256 data) \<and>
             settle succeeds ?out =
               (if list_all succeeds (snd (snd ?out)) then Inr (sha256 data)
                else Inl DurableWriteFailure)"
    if "\<not> (\<not> longterm c \<and> fileLimit c < int (length data))"
       "inRAM sha256 c data pths now = Inr b" "w \<or> \<not> b" for b
    using that put_unfold [OF that(1), of sha256 pths w now] by (auto simp: settle_unfold)
  have three: "(w \<or> inRAM sha256 c data pths now = Inr False) \<and> \<not> list_all succeeds (snd (snd ?out))"
    if fail: "settle succeeds ?out = Inl DurableWriteFailure"
  proof (cases "\<not> longterm c \<and> fileLimit c < int (length data)")
    case True
    then have "?out = (Rejected OversizedPayload, c, [])" by (simp add: put_def)
    with fail show ?thesis by (simp add: settle_def)
  next
    case False
    note pu = put_unfold [OF False, of sha256 pths w now]
    show ?thesis
    proof (cases "inRAM sha256 c data pths now")
      case (Inl e)
      with inRAM_error [OF Inl] pu fail show ?thesis by (simp add: settle_unfold)
    next
      case (Inr b)
      with pu fail show ?thesis by (cases b; cases w) (auto simp: settle_unfold split: if_splits)
    qed
  qed
  from one two three show ?thesis by blast
qed

text \<open>
  C6, as written, says that a caller that did not ask to wait never sees a durable
  write failure.  On a cache with a backend and \<open>fileLimit = 3\<close>, a four-byte payload put
  without waiting is not admitted to RAM, so the promise waits for the writes, and
  when they fail the caller gets the failure.
\<close>

theorem nonwaiting_caller_sees_write_failure:
  "inRAM hex_digest durable_cache [1, 2, 3, 4] [''a''] 10 = Inr False \<and>
   fst (put hex_digest durable_cache [1, 2, 3, 4] [''a''] False 10) = Deferred ''01020304'' \<and>
   settle writes_fail (put hex_digest durable_cache [1, 2, 3, 4] [''a''] False 10)
     = Inl DurableWriteFailure"
  by (simp add: durable_cache_def inRAM_def settle_def writes_fail_def eval_defs)

theorem put_settlement_witness:
  "(\<not> (\<not> longterm durable_cache \<and> fileLimit durable_cache < int (length [1, 2 :: 8 word])) \<and>
    inRAM hex_digest durable_cache [1, 2] [''a''] 10 = Inr True \<and>
    settle writes_fail (put hex_digest durable_cache [1, 2] [''a''] False 10) = Inr ''0102'') \<and>
   (\<not> (\<not> longterm durable_cache \<and> fileLimit durable_cache < int (length [1, 2 :: 8 word])) \<and>
    inRAM hex_digest durable_cache [1, 2] [''a''] 10 = Inr True \<and>
    settle writes_fail (put hex_digest durable_cache [1, 2] [''a''] True 10)
      = Inl DurableWriteFailure) \<and>
   (settle writes_fail (put hex_digest durable_cache [1, 2, 3, 4] [''a''] False 10)
      = Inl DurableWriteFailure \<and>
    inRAM hex_digest durable_cache [1, 2, 3, 4] [''a''] 10 = Inr False)"
proof -
  have pre: "longterm durable_cache" "fileLimit durable_cache = 3"
    "inRAM hex_digest durable_cache [1, 2] [''a''] 10 = Inr True"
    "snd (snd (put hex_digest durable_cache [1, 2] [''a''] True 10))
       = [WritePath ''a'' ''0102'', WriteCache ''0102'' [1, 2]]"
    "settle writes_fail (put hex_digest durable_cache [1, 2, 3, 4] [''a''] False 10)
       = Inl DurableWriteFailure"
    "hex_digest [1, 2] = ''0102''"
    by (simp_all add: durable_cache_def inRAM_def settle_def writes_fail_def eval_defs)
  from put_settlement [of durable_cache "[1, 2]" hex_digest "[''a'']" 10 False writes_fail]
       put_settlement [of durable_cache "[1, 2]" hex_digest "[''a'']" 10 True writes_fail]
       put_settlement [of durable_cache "[1, 2, 3, 4]" hex_digest "[''a'']" 10 False writes_fail]
       pre
  show ?thesis by (auto simp: writes_fail_def)
qed

section \<open>The durable payload write of \<^verbatim>\<open>put\<close>\<close>

text \<open>
  C7.  The source comments its test with "if not already in RAM (theory being if in RAM it
  must also be in long term so save the write)", but the test is
  \<^verbatim>\<open>_caches[hash]===undefined || Buffer.compare(_caches[hash][1],data)===0\<close>: it also holds
  when the payload is resident with the same bytes.  After \<open>put\<close> of the bytes 1, 2, 3 on a
  cache with a backend the payload is resident; a second \<open>put\<close> of the same bytes under
  the same path still starts the durable payload write.
\<close>

theorem resident_payload_written_again:
  "map_of (caches (run hex_digest durable_cache [Put [1, 2, 3] [''a''] False 10])) ''010203''
     = Some (10, [1, 2, 3]) \<and>
   snd (snd (put hex_digest (run hex_digest durable_cache [Put [1, 2, 3] [''a''] False 10])
               [1, 2, 3] [''a''] False 20))
     = [WriteCache ''010203'' [1, 2, 3]]"
  by (simp add: durable_cache_def eval_defs)

section \<open>The outcomes of \<^verbatim>\<open>getByHash\<close>\<close>


lemma storeCacheInRAM_error:
  assumes "storeCacheInRAM c hash data now = (Inl e, c')"
  shows "e = TypeError"
proof (cases "map_of (caches c) hash")
  case (Some x)
  obtain t d where "x = (t, d)" by (cases x)
  with Some assms show ?thesis by (simp add: storeCacheInRAM_resident)
next
  case None
  show ?thesis
  proof (cases "fileLimit c < int (length data)")
    case True
    with None assms show ?thesis by (simp add: storeCacheInRAM_too_big)
  next
    case False
    obtain r1 c1 where free: "freeSpaceInRAM c (int (length data)) now = (r1, c1)"
      by (cases "freeSpaceInRAM c (int (length data)) now")
    show ?thesis
    proof (cases r1)
      case (Inl e')
      with None False free assms have "e' = e" by (simp add: storeCacheInRAM_throws)
      with Inl free show ?thesis by (auto dest: freeSpaceInRAM_error)
    next
      case (Inr u)
      with None False free assms show ?thesis by (simp add: storeCacheInRAM_admits)
    qed
  qed
qed




section \<open>Deleting by path and by path prefix\<close>

lemma map_of_filter_keys:
  "map_of (filter (\<lambda>(k, v). P k) xs) k = (if P k then map_of xs k else None)"
  by (induction xs) auto

text \<open>
  C9.  \<open>deleteByPathStart\<close> leaves in RAM exactly the path entries whose path does not
  start with the given string, each with its index and hash, and leaves the content
  entries and resident size as they are; in the durable tier it removes exactly the
  paths starting with the string when a backend is configured, and nothing otherwise.
  \<open>deleteByPath\<close> does the same for the one path given.
\<close>

theorem deleteByPathStart_exact:
  "set (paths (fst (deleteByPathStart c durable start)))
     = {e \<in> set (paths c). \<not> prefix start (fst e)} \<and>
   (\<forall>p. map_of (paths (fst (deleteByPathStart c durable start))) p
          = (if prefix start p then None else map_of (paths c) p)) \<and>
   caches (fst (deleteByPathStart c durable start)) = caches c \<and>
   current (fst (deleteByPathStart c durable start)) = current c \<and>
   (\<forall>p. snd (deleteByPathStart c durable start) p
          = (if longterm c \<and> prefix start p then None else durable p)) \<and>
   map_of (paths (fst (deleteByPath c durable path)))
     = (map_of (paths c))(path := None) \<and>
   caches (fst (deleteByPath c durable path)) = caches c \<and>
   (\<forall>p. snd (deleteByPath c durable path) p
          = (if longterm c \<and> p = path then None else durable p))"
  by (auto simp: deleteByPathStart_def deleteByPath_def map_of_filter_keys AList.delete_conv')

theorem deleteByPathStart_exact_witness:
  "paths (run hex_digest durable_cache [Put [1] [''test/56'', ''test/4''] True 10])
     = [(''test/56'', 0, ''01''), (''test/4'', 1, ''01'')] \<and>
   set (paths (fst (deleteByPathStart
          (run hex_digest durable_cache [Put [1] [''test/56'', ''test/4''] True 10])
          [''test/56'' \<mapsto> ''01'', ''test/4'' \<mapsto> ''01''] ''test/5'')))
     = {(''test/4'', 1, ''01'')} \<and>
   snd (deleteByPathStart
          (run hex_digest durable_cache [Put [1] [''test/56'', ''test/4''] True 10])
          [''test/56'' \<mapsto> ''01'', ''test/4'' \<mapsto> ''01''] ''test/5'') ''test/56'' = None \<and>
   snd (deleteByPathStart
          (run hex_digest durable_cache [Put [1] [''test/56'', ''test/4''] True 10])
          [''test/56'' \<mapsto> ''01'', ''test/4'' \<mapsto> ''01''] ''test/5'') ''test/4'' = Some ''01'' \<and>
   caches (fst (deleteByPathStart
          (run hex_digest durable_cache [Put [1] [''test/56'', ''test/4''] True 10])
          [''test/56'' \<mapsto> ''01'', ''test/4'' \<mapsto> ''01''] ''test/5''))
     = [(''01'', 10, [1])]"
proof -
  let ?c = "run hex_digest durable_cache [Put [1] [''test/56'', ''test/4''] True 10]"
  let ?d = "[''test/56'' \<mapsto> ''01'', ''test/4'' \<mapsto> ''01'']"
  have st: "?c = \<lparr>fileLimit = 3, totalLimit = 5, longterm = True, pathLimit = 2, pathIndex = 2,
                  current = 1, caches = [(''01'', 10, [1])],
                  paths = [(''test/56'', 0, ''01''), (''test/4'', 1, ''01'')],
                  scoreFunc = default_scoreFunc\<rparr>"
    by (simp add: durable_cache_def eval_defs)
  from deleteByPathStart_exact [of ?c ?d "''test/5''" "''a''"]
  show ?thesis unfolding st by auto
qed

end
